theory Spec2Isabelle
  imports Main "HOL-Library.Sublist" "HOL-Library.Multiset"
begin

section \<open>Strings\<close>

text \<open>
  A JavaScript string is a sequence of code units. The model takes the code units
  0..255 (Latin-1), one \<^typ>\<open>char\<close> each; \<open>toLowerCase\<close> and the regular
  expression class \<^verbatim>\<open>\s\<close> are written out for that range.
\<close>

definition nl :: string where
  "nl = [CHR 0x0A]"

text \<open>\<^verbatim>\<open>\s\<close>: TAB, LF, VT, FF, CR, SPACE and NO-BREAK SPACE.\<close>

definition isSpace :: "char \<Rightarrow> bool" where
  "isSpace c = (c \<in> set [CHR 0x09, CHR 0x0A, CHR 0x0B, CHR 0x0C, CHR 0x0D, CHR 0x20, CHR 0xA0])"

text \<open>
  \<open>String.prototype.toLowerCase\<close> on one code unit: A..Z and the Latin-1 capitals
  U+00C0..U+00DE (U+00D7, the multiplication sign, apart) move up by 32.
\<close>

definition toLowerChar :: "char \<Rightarrow> char" where
  "toLowerChar c =
     (let n = (of_char c :: nat)
      in if (65 \<le> n \<and> n \<le> 90) \<or> (192 \<le> n \<and> n \<le> 222 \<and> n \<noteq> 215)
         then char_of (n + 32) else c)"

definition toLowerCase :: "string \<Rightarrow> string" where
  "toLowerCase s = map toLowerChar s"

text \<open>\<open>String.prototype.includes\<close>: \<open>w\<close> occurs in \<open>s\<close> as a contiguous run.\<close>

fun includes_str :: "string \<Rightarrow> string \<Rightarrow> bool" where
  "includes_str [] w = (w = [])"
| "includes_str (c # cs) w = (prefix w (c # cs) \<or> includes_str cs w)"

text \<open>\<open>Array.prototype.join\<close>.\<close>

fun join :: "string \<Rightarrow> string list \<Rightarrow> string" where
  "join sep [] = []"
| "join sep [x] = x"
| "join sep (x # y # ys) = x @ sep @ join sep (y # ys)"

text \<open>
  \<open>s.split(/\s+/)\<close>: the pieces between the maximal runs of white space. A string
  that starts (ends) with white space gives an empty first (last) piece, and the
  empty string gives one empty piece.
\<close>

function split_acc :: "string \<Rightarrow> string \<Rightarrow> string list" where
  "split_acc acc [] = [acc]"
| "split_acc acc (c # cs) =
     (if isSpace c then acc # split_acc [] (dropWhile isSpace cs)
      else split_acc (acc @ [c]) cs)"
  by pat_completeness auto
termination
  by (relation "measure (\<lambda>(acc, s). length s)")
     (auto simp: less_Suc_eq_le length_dropWhile_le)

definition split_ws :: "string \<Rightarrow> string list" where
  "split_ws s = split_acc [] s"

section \<open>The knowledge base\<close>

record employee =
  emp_name :: string
  emp_role :: string
  emp_area :: string

record mission_area =
  m_title :: string
  m_text :: string
  m_items :: "string list"

record contact_info =
  email :: string
  phone :: string

record hq_info =
  address :: string

record lang_data =
  companyName :: string
  founder :: string
  co_founders :: "string list"
  missionStatement :: string
  tagline :: string
  story :: string
  employees :: "employee list"
  mission :: "mission_area list"
  contact :: contact_info
  hq :: hq_info

record faq_data =
  en :: lang_data

section \<open>Documents\<close>

text \<open>
  A document object has \<open>content\<close> and \<open>type\<close>; employee documents also have
  \<open>name\<close> and mission documents \<open>category\<close>. A property that an object does not
  have is \<open>None\<close>.
\<close>

record doc =
  content :: string
  type :: string
  name :: "string option"
  category :: "string option"

definition push :: "'a list \<Rightarrow> 'a \<Rightarrow> 'a list" where
  "push xs x = xs @ [x]"

text \<open>\<open>xs.forEach(f)\<close>, where \<open>f\<close> updates the array \<open>documents\<close>.\<close>

definition forEach :: "'a list \<Rightarrow> ('s \<Rightarrow> 'a \<Rightarrow> 's) \<Rightarrow> 's \<Rightarrow> 's" where
  "forEach xs f st = foldl f st xs"

definition company_doc :: "faq_data \<Rightarrow> doc" where
  "company_doc data =
     \<lparr> content = ''Company Name: '' @ companyName (en data) @ nl @
                 ''Founder: '' @ founder (en data) @ nl @
                 ''Co-founders: '' @ join '', '' (co_founders (en data)) @ nl @
                 ''Mission Statement: '' @ missionStatement (en data) @ nl @
                 ''Tagline: '' @ tagline (en data) @ nl @
                 ''Story: '' @ story (en data),
       type = ''company_info'', name = None, category = None \<rparr>"

definition employee_doc :: "employee \<Rightarrow> doc" where
  "employee_doc emp =
     \<lparr> content = ''Employee: '' @ emp_name emp @ nl @
                 ''Role: '' @ emp_role emp @ nl @
                 ''Area: '' @ emp_area emp,
       type = ''employee'', name = Some (emp_name emp), category = None \<rparr>"

definition mission_doc :: "mission_area \<Rightarrow> doc" where
  "mission_doc m =
     \<lparr> content = m_title m @ nl @ m_text m @ nl @
                 ''Technologies: '' @ join '', '' (m_items m),
       type = ''mission'', name = None, category = Some (m_title m) \<rparr>"

definition contact_doc :: "faq_data \<Rightarrow> doc" where
  "contact_doc data =
     \<lparr> content = ''Contact Information:'' @ nl @
                 ''Email: '' @ email (contact (en data)) @ nl @
                 ''Phone: '' @ phone (contact (en data)) @ nl @
                 ''Address: '' @ address (hq (en data)),
       type = ''contact'', name = None, category = None \<rparr>"

definition createDocumentsFromData :: "faq_data \<Rightarrow> doc list" where
  "createDocumentsFromData data =
     (let documents = [];
          documents = push documents (company_doc data);
          documents = forEach (employees (en data))
                        (\<lambda>documents emp. push documents (employee_doc emp)) documents;
          documents = forEach (mission (en data))
                        (\<lambda>documents m. push documents (mission_doc m)) documents;
          documents = push documents (contact_doc data)
      in documents)"

section \<open>Keyword search\<close>

definition stopWords :: "string list" where
  "stopWords = [''the'', ''a'', ''an'', ''is'', ''are'', ''what'', ''who'', ''where'',
                ''when'', ''why'', ''how'', ''does'', ''do'', ''can'', ''could'']"

text \<open>The first statement of \<open>findRelevantDocuments\<close>: the array \<open>questionWords\<close>.\<close>

definition questionWords :: "string \<Rightarrow> string list" where
  "questionWords question =
     (let questionLower = toLowerCase question
      in filter (\<lambda>word. word \<notin> set stopWords)
           (filter (\<lambda>word. 2 < length word) (split_ws questionLower)))"

record scored_doc = doc +
  score :: int

text \<open>The body of the \<open>documents.map\<close> callback: the loop that counts.\<close>

definition count_matches :: "string list \<Rightarrow> doc \<Rightarrow> int" where
  "count_matches ws d =
     (let contentLower = toLowerCase (content d)
      in forEach ws
           (\<lambda>score word. if includes_str contentLower word then score + 1 else score) 0)"

text \<open>The object \<^verbatim>\<open>{ ...doc, score }\<close>.\<close>

definition with_score :: "string list \<Rightarrow> doc \<Rightarrow> scored_doc" where
  "with_score ws d =
     \<lparr> content = content d, type = type d, name = name d, category = category d,
       score = count_matches ws d \<rparr>"

text \<open>
  \<open>Array.prototype.sort\<close> with a comparator. ECMAScript requires the sort to be
  stable and leaves the algorithm to the engine; the model is insertion sort, in
  which an element stays in front of a later one unless the comparator is positive.
\<close>

fun insort_cmp :: "('a \<Rightarrow> 'a \<Rightarrow> int) \<Rightarrow> 'a \<Rightarrow> 'a list \<Rightarrow> 'a list" where
  "insort_cmp cmp x [] = [x]"
| "insort_cmp cmp x (y # ys) =
     (if cmp x y \<le> 0 then x # y # ys else y # insort_cmp cmp x ys)"

definition sort_cmp :: "('a \<Rightarrow> 'a \<Rightarrow> int) \<Rightarrow> 'a list \<Rightarrow> 'a list" where
  "sort_cmp cmp xs = foldr (insort_cmp cmp) xs []"

definition scoredDocs :: "string \<Rightarrow> doc list \<Rightarrow> scored_doc list" where
  "scoredDocs question documents = map (with_score (questionWords question)) documents"

text \<open>The chain before \<open>slice\<close>: the documents that matched, best first.\<close>

definition ranked :: "string \<Rightarrow> doc list \<Rightarrow> scored_doc list" where
  "ranked question documents =
     sort_cmp (\<lambda>a b. score b - score a)
       (filter (\<lambda>d. 0 < score d) (scoredDocs question documents))"

definition findRelevantDocuments :: "string \<Rightarrow> doc list \<Rightarrow> scored_doc list" where
  "findRelevantDocuments question documents = take 5 (ranked question documents)"

section \<open>The agent, up to the context\<close>

definition render_doc :: "scored_doc \<Rightarrow> string" where
  "render_doc d =
     (let metadata = (if type d \<noteq> [] then ''['' @ type d @ '']'' else [])
      in metadata @ nl @ content d)"

definition build_context :: "faq_data \<Rightarrow> scored_doc list \<Rightarrow> string" where
  "build_context data relevantDocs =
     (if 0 < length relevantDocs
      then join (nl @ nl @ ''---'' @ nl @ nl) (map render_doc relevantDocs)
      else ''Company: '' @ companyName (en data) @ nl @ missionStatement (en data))"

text \<open>
  The two ways a call can end with an exception before it has a context:
  \<open>DataUnavailable\<close>, thrown by \<open>fs.readFileSync\<close> or \<open>JSON.parse\<close>, and
  \<open>TypeError\<close>, thrown by \<open>createDocumentsFromData\<close> on a value that has not the
  properties it reads.
\<close>

datatype error = DataUnavailable | TypeError

text \<open>
  What \<open>JSON.parse\<close> can return, as far as the agent tells the values apart:
  a falsy value (\<open>null\<close>, \<open>false\<close>, 0 or the empty string); a truthy value on which
  \<open>createDocumentsFromData\<close> throws (such as \<^verbatim>\<open>{}\<close>, which has no property \<open>en\<close>);
  a value of the shape of \<open>faq_data\<close>. A truthy value that lacks only a string which
  a template would print as \<open>undefined\<close> is not modelled.
\<close>

datatype json = Falsy | Malformed | Data faq_data

text \<open>
  The module variable \<open>faqDataCache\<close>, which is \<open>null\<close> when the module is loaded,
  and a counter of the reads of \<^verbatim>\<open>faq.json\<close> that the module has made.
\<close>

record agent_state =
  faqDataCache :: json
  loads :: nat

definition initial_state :: agent_state where
  "initial_state = \<lparr> faqDataCache = Falsy, loads = 0 \<rparr>"

record retrieval =
  documents :: "doc list"
  relevantDocs :: "scored_doc list"
  context_str :: string

text \<open>
  \<open>runFAQAgent\<close> as far as the context. \<open>file\<close> is what
  \<^verbatim>\<open>JSON.parse(fs.readFileSync("faq.json", "utf8"))\<close> does at the time of the call:
  it throws (\<open>Inl\<close>) or returns a value (\<open>Inr\<close>). The guard \<^verbatim>\<open>if (!faqDataCache)\<close>
  reads the file when the variable is falsy, and the assignment stores whatever value
  the parse returned: a falsy one leaves the variable falsy, any other one stays in it
  for the rest of the process. After the guard, \<open>createDocumentsFromData\<close> runs on the
  variable, and throws unless it holds a value of the shape of \<open>faq_data\<close>.
\<close>

definition runFAQAgent ::
  "error + json \<Rightarrow> string \<Rightarrow> agent_state \<Rightarrow> (error + retrieval) \<times> agent_state" where
  "runFAQAgent file question st =
     (case (case faqDataCache st of
              Falsy \<Rightarrow>
               (case file of
                  Inl e \<Rightarrow> Inl (e, st\<lparr>loads := loads st + 1\<rparr>)
                | Inr v \<Rightarrow> Inr (st\<lparr>faqDataCache := v, loads := loads st + 1\<rparr>))
            | _ \<Rightarrow> Inr st)
      of Inl (e, st') \<Rightarrow> (Inl e, st')
       | Inr st' \<Rightarrow>
          (case faqDataCache st' of
             Data data \<Rightarrow>
               (let docs = createDocumentsFromData data;
                    rel = findRelevantDocuments question docs
                in (Inr \<lparr> documents = docs, relevantDocs = rel,
                           context_str = build_context data rel \<rparr>, st'))
           | _ \<Rightarrow> (Inl TypeError, st')))"

text \<open>A process: the calls one after the other, each with the file as it is then.\<close>

fun run_calls ::
  "((error + json) \<times> string) list \<Rightarrow> agent_state \<Rightarrow> (error + retrieval) list \<times> agent_state" where
  "run_calls [] st = ([], st)"
| "run_calls ((file, question) # calls) st =
     (let (r, st') = runFAQAgent file question st;
          (rs, st'') = run_calls calls st'
      in (r # rs, st''))"

text \<open>
  The reads after which the variable \<open>faqDataCache\<close> is still falsy: the read or the
  parse threw, or the parse returned a falsy value.
\<close>

fun load_fails :: "error + json \<Rightarrow> bool" where
  "load_fails (Inl e) = True"
| "load_fails (Inr Falsy) = True"
| "load_fails (Inr Malformed) = False"
| "load_fails (Inr (Data data)) = False"

section \<open>The tokenizer as the specification words it\<close>

text \<open>
  Splitting on runs of white space, read off the specification: the string is cut at
  every maximal run of white space, and the pieces are what stands between the runs.
  A piece has no white space in it; a run is not empty, is white space only, and is
  followed by the end of the string or by a character that is not white space.
\<close>

inductive split_on_whitespace_runs :: "string \<Rightarrow> string list \<Rightarrow> bool" where
  last_piece: "\<forall>c\<in>set p. \<not> isSpace c \<Longrightarrow> split_on_whitespace_runs p [p]"
| next_piece:
    "\<forall>c\<in>set p. \<not> isSpace c \<Longrightarrow> run \<noteq> [] \<Longrightarrow> \<forall>c\<in>set run. isSpace c \<Longrightarrow>
     rest = [] \<or> \<not> isSpace (hd rest) \<Longrightarrow> split_on_whitespace_runs rest ps \<Longrightarrow>
     split_on_whitespace_runs (p @ run @ rest) (p # ps)"

text \<open>
  The specification's test of a term against a document: \<open>w\<close> occurs in \<open>s\<close> as a
  substring when the case of the letters is ignored.
\<close>

definition occurs_ci :: "string \<Rightarrow> string \<Rightarrow> bool" where
  "occurs_ci w s \<longleftrightarrow> (\<exists>p r. toLowerCase s = p @ toLowerCase w @ r)"

section \<open>Two knowledge bases\<close>

text \<open>The knowledge base of the specification's example scenarios.\<close>

definition acme :: faq_data where
  "acme =
     \<lparr> en = \<lparr> companyName = ''Acme'', founder = ''Eva'', co_founders = [''Bo'', ''Cy''],
              missionStatement = ''We build software'', tagline = ''Just ship'',
              story = ''Started in a garage'',
              employees = [\<lparr> emp_name = ''Ana'', emp_role = ''Engineer'', emp_area = ''Backend'' \<rparr>,
                           \<lparr> emp_name = ''Leo'', emp_role = ''Designer'', emp_area = ''Frontend'' \<rparr>],
              mission = [\<lparr> m_title = ''Backend'', m_text = ''We build APIs'',
                           m_items = [''Node'', ''Go''] \<rparr>],
              contact = \<lparr> email = ''hi@acme.io'', phone = ''555'' \<rparr>,
              hq = \<lparr> address = ''1 Main St'' \<rparr> \<rparr> \<rparr>"

text \<open>A knowledge base whose strings are all empty.\<close>

definition blank :: faq_data where
  "blank =
     \<lparr> en = \<lparr> companyName = [], founder = [], co_founders = [],
              missionStatement = [], tagline = [], story = [],
              employees = [\<lparr> emp_name = [], emp_role = [], emp_area = [] \<rparr>],
              mission = [\<lparr> m_title = [], m_text = [], m_items = [] \<rparr>],
              contact = \<lparr> email = [], phone = [] \<rparr>,
              hq = \<lparr> address = [] \<rparr> \<rparr> \<rparr>"

text \<open>The two employee documents of \<open>acme\<close>.\<close>

definition ana_doc :: doc where
  "ana_doc = employee_doc \<lparr> emp_name = ''Ana'', emp_role = ''Engineer'', emp_area = ''Backend'' \<rparr>"

definition leo_doc :: doc where
  "leo_doc = employee_doc \<lparr> emp_name = ''Leo'', emp_role = ''Designer'', emp_area = ''Frontend'' \<rparr>"

section \<open>Objects and arrays in a store\<close>

text \<open>
  What \<open>findRelevantDocuments\<close> does to the objects and arrays it is given. A store
  holds the objects and the arrays, each at an address (its index); an array is the
  list of the addresses of its elements. An object is a document, with or without the
  property \<open>score\<close>.
\<close>

type_synonym ref = nat

datatype obj = Plain doc | Scored scored_doc

record heap =
  objs :: "obj list"
  arrs :: "ref list list"

text \<open>The properties that the spread \<^verbatim>\<open>...doc\<close> copies and \<open>score\<close> does not replace.\<close>

fun doc_of :: "obj \<Rightarrow> doc" where
  "doc_of (Plain d) = d"
| "doc_of (Scored sd) =
     \<lparr> content = content sd, type = type sd, name = name sd, category = category sd \<rparr>"

text \<open>
  \<open>doc.score\<close>, read by the callbacks of \<open>filter\<close> and \<open>sort\<close>. They only meet
  the objects that \<open>map\<close> has made, which have the property.
\<close>

fun score_of :: "obj \<Rightarrow> int" where
  "score_of (Scored sd) = score sd"
| "score_of (Plain d) = 0"

definition alloc_obj :: "obj \<Rightarrow> heap \<Rightarrow> ref \<times> heap" where
  "alloc_obj ob h = (length (objs h), h\<lparr>objs := objs h @ [ob]\<rparr>)"

definition alloc_arr :: "ref list \<Rightarrow> heap \<Rightarrow> ref \<times> heap" where
  "alloc_arr a h = (length (arrs h), h\<lparr>arrs := arrs h @ [a]\<rparr>)"

text \<open>The callback of \<open>documents.map\<close>, element after element: each call makes an object.\<close>

fun map_score :: "string list \<Rightarrow> ref list \<Rightarrow> heap \<Rightarrow> ref list \<times> heap" where
  "map_score ws [] h = ([], h)"
| "map_score ws (r # rs) h =
     (let (r', h) = alloc_obj (Scored (with_score ws (doc_of (objs h ! r)))) h;
          (rs', h) = map_score ws rs h
      in (r' # rs', h))"

text \<open>
  \<open>findRelevantDocuments\<close> on the store: \<open>map\<close>, \<open>filter\<close> and \<open>slice\<close> each make
  an array, and \<open>sort\<close> sorts the array that \<open>filter\<close> made, in place. The result is
  \<open>None\<close> when \<open>documents_ref\<close> or an element of that array is not an address of the
  store, which a JavaScript reference never is.
\<close>

definition findRelevantDocuments_heap :: "string \<Rightarrow> ref \<Rightarrow> heap \<Rightarrow> (ref \<times> heap) option" where
  "findRelevantDocuments_heap question documents_ref h =
     (if documents_ref < length (arrs h) \<and>
         list_all (\<lambda>r. r < length (objs h)) (arrs h ! documents_ref)
      then
        let ws = questionWords question;
            (elems, h) = map_score ws (arrs h ! documents_ref) h;
            (scoredDocs_ref, h) = alloc_arr elems h;
            (matching_ref, h) =
               alloc_arr (filter (\<lambda>r. 0 < score_of (objs h ! r)) (arrs h ! scoredDocs_ref)) h;
            h = h\<lparr>arrs := (arrs h)
                  [matching_ref :=
                     sort_cmp (\<lambda>a b. score_of (objs h ! b) - score_of (objs h ! a))
                       (arrs h ! matching_ref)]\<rparr>;
            (result_ref, h) = alloc_arr (take 5 (arrs h ! matching_ref)) h
        in Some (result_ref, h)
      else None)"

text \<open>A store with the array of the two employee documents of \<open>acme\<close>.\<close>

definition heap0 :: heap where
  "heap0 = \<lparr> objs = [Plain ana_doc, Plain leo_doc], arrs = [[0, 1]] \<rparr>"

text \<open>The comparator of \<open>findRelevantDocuments\<close>.\<close>

abbreviation by_score :: "scored_doc \<Rightarrow> scored_doc \<Rightarrow> int" where
  "by_score \<equiv> (\<lambda>a b. score b - score a)"

section \<open>Document derivation\<close>

lemma forEach_push: "forEach xs (\<lambda>ds x. push ds (f x)) ds = ds @ map f xs"
  unfolding forEach_def push_def
  by (induction xs arbitrary: ds) simp_all

lemma createDocumentsFromData_eq:
  "createDocumentsFromData data =
     company_doc data # map employee_doc (employees (en data)) @
     map mission_doc (mission (en data)) @ [contact_doc data]"
  unfolding createDocumentsFromData_def Let_def forEach_push
  by (simp add: push_def)

text \<open>
  C6: for every knowledge base, \<open>createDocumentsFromData\<close> returns
  1 + |employees| + |mission areas| + 1 documents: the company document, then one
  document per employee in the order of the knowledge base, then one per mission area
  in the order of the knowledge base, then the contact document.
\<close>

theorem createDocumentsFromData_complete:
  "length (createDocumentsFromData data) =
      1 + length (employees (en data)) + length (mission (en data)) + 1
   \<and> createDocumentsFromData data =
        [company_doc data] @ map employee_doc (employees (en data)) @
        map mission_doc (mission (en data)) @ [contact_doc data]
   \<and> map type (createDocumentsFromData data) =
        [''company_info''] @ replicate (length (employees (en data))) ''employee'' @
        replicate (length (mission (en data))) ''mission'' @ [''contact'']"
proof -
  have emp: "map type (map employee_doc es) = replicate (length es) ''employee''" for es
    by (induction es) (simp_all add: employee_doc_def)
  have mis: "map type (map mission_doc ms) = replicate (length ms) ''mission''" for ms
    by (induction ms) (simp_all add: mission_doc_def)
  have "type (company_doc data) = ''company_info''" "type (contact_doc data) = ''contact''"
    by (simp_all add: company_doc_def contact_doc_def)
  with emp mis show ?thesis
    by (simp add: createDocumentsFromData_eq del: map_map)
qed

theorem createDocumentsFromData_complete_acme:
  "length (createDocumentsFromData acme) = 5 \<and>
   map type (createDocumentsFromData acme) =
     [''company_info'', ''employee'', ''employee'', ''mission'', ''contact'']"
proof -
  have n: "length (employees (en acme)) = 2" "length (mission (en acme)) = 1"
    by (simp_all add: acme_def)
  have r: "replicate 2 x = [x, x]" "replicate 1 x = [x]" for x :: string
    by (simp_all add: numeral_2_eq_2)
  note c = createDocumentsFromData_complete [of acme]
  have "length (createDocumentsFromData acme) = 5"
    using c [THEN conjunct1] unfolding n by simp
  moreover have "map type (createDocumentsFromData acme) =
      [''company_info'', ''employee'', ''employee'', ''mission'', ''contact'']"
    using c [THEN conjunct2, THEN conjunct2] unfolding n r by simp
  ultimately show ?thesis by (rule conjI)
qed

text \<open>
  C9: every document that \<open>createDocumentsFromData\<close> returns has a content that
  is not empty and a type among company_info, employee, mission and contact, whatever
  the knowledge base holds, empty strings included.
\<close>

theorem derived_docs_invariant:
  "\<forall>d\<in>set (createDocumentsFromData data).
     content d \<noteq> [] \<and> type d \<in> {''company_info'', ''employee'', ''mission'', ''contact''}"
  by (auto simp: createDocumentsFromData_eq company_doc_def employee_doc_def
        mission_doc_def contact_doc_def nl_def)

theorem derived_docs_invariant_blank:
  "set (createDocumentsFromData blank) \<noteq> {} \<and>
   list_all (\<lambda>d. content d \<noteq> [] \<and> type d \<in> {''company_info'', ''employee'', ''mission'', ''contact''})
     (createDocumentsFromData blank)"
  using derived_docs_invariant [of blank] by (simp add: list_all_iff createDocumentsFromData_eq)

section \<open>The tokenizer\<close>

lemma split_acc_sound:
  "\<forall>c\<in>set acc. \<not> isSpace c \<Longrightarrow> split_on_whitespace_runs (acc @ s) (split_acc acc s)"
proof (induction acc s rule: split_acc.induct)
  case (1 acc)
  then show ?case by (simp add: last_piece)
next
  case (2 acc c cs)
  show ?case
  proof (cases "isSpace c")
    case True
    let ?run = "c # takeWhile isSpace cs"
    let ?rest = "dropWhile isSpace cs"
    have rest: "split_on_whitespace_runs ?rest (split_acc [] ?rest)"
      using "2.IH"(1) [OF True] by simp
    have start: "?rest = [] \<or> \<not> isSpace (hd ?rest)"
      using hd_dropWhile [of isSpace cs] by blast
    have run: "\<forall>c\<in>set ?run. isSpace c"
      using True by (auto dest: set_takeWhileD)
    have "split_on_whitespace_runs (acc @ ?run @ ?rest) (acc # split_acc [] ?rest)"
      using "2.prems" _ run start rest by (rule next_piece) simp
    then show ?thesis using True by simp
  next
    case False
    with 2 show ?thesis by simp
  qed
qed

lemma split_acc_no_space:
  "\<forall>c\<in>set p. \<not> isSpace c \<Longrightarrow> split_acc acc (p @ t) = split_acc (acc @ p) t"
  by (induction p arbitrary: acc) simp_all

lemma split_acc_run:
  assumes "run \<noteq> []" "\<forall>c\<in>set run. isSpace c" "rest = [] \<or> \<not> isSpace (hd rest)"
  shows "split_acc acc (run @ rest) = acc # split_acc [] rest"
proof -
  from assms(1) obtain c run' where run: "run = c # run'" by (cases run) auto
  have "dropWhile isSpace (run' @ rest) = dropWhile isSpace rest"
    using assms(2) run by (simp add: dropWhile_append2)
  also have "\<dots> = rest"
    using assms(3) by (cases rest) auto
  finally show ?thesis using assms(2) run by simp
qed

lemma split_acc_unique:
  "split_on_whitespace_runs s ps \<Longrightarrow> ps = split_acc [] s"
proof (induction rule: split_on_whitespace_runs.induct)
  case (last_piece p)
  then show ?case using split_acc_no_space [of p "[]" "[]"] by simp
next
  case (next_piece p run rest ps)
  have "split_acc [] (p @ run @ rest) = split_acc p (run @ rest)"
    using split_acc_no_space [OF next_piece.hyps(1), of "[]" "run @ rest"] by simp
  also have "\<dots> = p # split_acc [] rest"
    using next_piece.hyps(2,3,4) by (rule split_acc_run)
  finally show ?case using next_piece.IH by simp
qed

lemma toLowerChar_idem: "toLowerChar (toLowerChar c) = toLowerChar c"
proof -
  have lt: "(of_char c :: nat) < 256" by simp
  show ?thesis
    unfolding toLowerChar_def Let_def
    using lt by (auto simp: of_char_of)
qed

lemma toLowerCase_idem: "toLowerCase (toLowerCase s) = toLowerCase s"
  by (simp add: toLowerCase_def toLowerChar_idem)

lemma split_acc_chars:
  "p \<in> set (split_acc acc s) \<Longrightarrow> set p \<subseteq> set acc \<union> set s"
proof (induction acc s rule: split_acc.induct)
  case (1 acc)
  then show ?case by simp
next
  case (2 acc c cs)
  show ?case
  proof (cases "isSpace c")
    case True
    with 2 show ?thesis
      by (auto dest: set_dropWhileD)
  next
    case False
    with 2 show ?thesis by auto
  qed
qed

lemma questionWords_lower: "w \<in> set (questionWords q) \<Longrightarrow> toLowerCase w = w"
proof -
  assume "w \<in> set (questionWords q)"
  then have "w \<in> set (split_acc [] (toLowerCase q))"
    by (simp add: questionWords_def Let_def split_ws_def)
  then have "set w \<subseteq> set (toLowerCase q)"
    using split_acc_chars by fastforce
  then have "\<forall>c\<in>set w. toLowerChar c = c"
    by (auto simp: toLowerCase_def toLowerChar_idem)
  then show ?thesis
    by (simp add: toLowerCase_def map_idI)
qed

text \<open>
  C7: for every question, \<open>questionWords\<close> (the terms that \<open>findRelevantDocuments\<close>
  extracts) is the list of the tokens obtained by lowercasing the question,
  splitting on runs of white space, discarding the tokens of length \<open>\<le> 2\<close> and
  discarding the tokens in the stop-word list. The split exists for every question
  (and is the only one); the result may be empty, as it is for the empty question.
\<close>

theorem questionWords_spec:
  "split_on_whitespace_runs (toLowerCase q) (split_ws (toLowerCase q))
   \<and> (\<forall>pieces. split_on_whitespace_runs (toLowerCase q) pieces \<longrightarrow>
         questionWords q =
           filter (\<lambda>t. \<not> length t \<le> 2 \<and>
                       t \<notin> {''the'', ''a'', ''an'', ''is'', ''are'', ''what'', ''who'', ''where'',
                              ''when'', ''why'', ''how'', ''does'', ''do'', ''can'', ''could''}) pieces)
   \<and> questionWords [] = []"
proof -
  have ex: "split_on_whitespace_runs (toLowerCase q) (split_ws (toLowerCase q))"
    unfolding split_ws_def using split_acc_sound [of "[]" "toLowerCase q"] by simp
  have un: "questionWords q =
      filter (\<lambda>t. \<not> length t \<le> 2 \<and>
                  t \<notin> {''the'', ''a'', ''an'', ''is'', ''are'', ''what'', ''who'', ''where'',
                         ''when'', ''why'', ''how'', ''does'', ''do'', ''can'', ''could''}) pieces"
    if "split_on_whitespace_runs (toLowerCase q) pieces" for pieces
  proof -
    from that have "pieces = split_ws (toLowerCase q)"
      unfolding split_ws_def by (rule split_acc_unique)
    then show ?thesis
      unfolding questionWords_def Let_def stopWords_def
      by (simp add: not_le conj_commute)
  qed
  have "questionWords [] = []"
    by (simp add: questionWords_def split_ws_def toLowerCase_def)
  with ex un show ?thesis by blast
qed

theorem questionWords_spec_mission:
  "split_on_whitespace_runs (toLowerCase ''What is the  Mission?'')
     [''what'', ''is'', ''the'', ''mission?'']
   \<and> questionWords ''What is the  Mission?'' = [''mission?'']"
proof -
  have sp: "split_ws (toLowerCase ''What is the  Mission?'') = [''what'', ''is'', ''the'', ''mission?'']"
    by code_simp
  note c = questionWords_spec [of "''What is the  Mission?''"]
  have a: "split_on_whitespace_runs (toLowerCase ''What is the  Mission?'')
     [''what'', ''is'', ''the'', ''mission?'']"
    using c [THEN conjunct1] unfolding sp .
  from c [THEN conjunct2, THEN conjunct1, rule_format, OF a]
  have "questionWords ''What is the  Mission?'' = [''mission?'']"
    by simp
  with a show ?thesis by (rule conjI)
qed

section \<open>Scoring\<close>

lemma includes_str_iff: "includes_str s w \<longleftrightarrow> (\<exists>p r. s = p @ w @ r)"
proof (induction s)
  case Nil
  then show ?case by auto
next
  case (Cons c cs)
  show ?case
  proof
    assume "includes_str (c # cs) w"
    then consider "prefix w (c # cs)" | "includes_str cs w" by auto
    then show "\<exists>p r. c # cs = p @ w @ r"
    proof cases
      case 1
      then obtain r where "c # cs = w @ r" by (auto simp: prefix_def)
      then have "c # cs = [] @ w @ r" by simp
      then show ?thesis by blast
    next
      case 2
      with Cons.IH obtain p r where "cs = p @ w @ r" by blast
      then have "c # cs = (c # p) @ w @ r" by simp
      then show ?thesis by blast
    qed
  next
    assume "\<exists>p r. c # cs = p @ w @ r"
    then obtain p r where eq: "c # cs = p @ w @ r" by blast
    show "includes_str (c # cs) w"
    proof (cases p)
      case Nil
      with eq have "prefix w (c # cs)" by (simp add: prefix_def)
      then show ?thesis by simp
    next
      case (Cons x p')
      with eq have "cs = p' @ w @ r" by simp
      with Cons.IH have "includes_str cs w" by blast
      then show ?thesis by simp
    qed
  qed
qed

lemma forEach_count:
  "forEach ws (\<lambda>score word. if P word then score + 1 else score) (n::int) =
     n + int (length (filter P ws))"
  unfolding forEach_def
  by (induction ws arbitrary: n) simp_all

lemma count_matches_eq:
  "count_matches ws d = int (length (filter (includes_str (toLowerCase (content d))) ws))"
  unfolding count_matches_def Let_def forEach_count by simp

lemma score_with_score: "score (with_score ws d) = count_matches ws d"
  by (simp add: with_score_def)

lemma includes_str_occurs_ci:
  "w \<in> set (questionWords q) \<Longrightarrow> includes_str (toLowerCase s) w \<longleftrightarrow> occurs_ci w s"
  by (simp add: includes_str_iff occurs_ci_def questionWords_lower)

lemma filter_includes_str_occurs_ci:
  "filter (includes_str (toLowerCase s)) (questionWords q) =
   filter (\<lambda>w. occurs_ci w s) (questionWords q)"
  by (rule filter_cong) (simp_all add: includes_str_occurs_ci)

text \<open>
  C3, as amended: the score of a document is the number of entries of the term list
  \<open>questionWords\<close> that occur in the document's content as a case-insensitive
  substring, an entry that the question repeats counting each time (the list is not
  made a set). So the score is an integer from 0 to the length of the term list; when
  no token of the question is repeated, it is the number of terms that occur in the
  content.
\<close>

theorem score_counts_entries:
  "score (with_score (questionWords q) d) =
      int (length (filter (\<lambda>w. occurs_ci w (content d)) (questionWords q)))
   \<and> 0 \<le> score (with_score (questionWords q) d)
   \<and> score (with_score (questionWords q) d) \<le> int (length (questionWords q))
   \<and> (distinct (questionWords q) \<longrightarrow>
        score (with_score (questionWords q) d) =
          int (card {w \<in> set (questionWords q). occurs_ci w (content d)}))"
proof -
  let ?ws = "questionWords q"
  let ?P = "\<lambda>w. occurs_ci w (content d)"
  have eq: "score (with_score ?ws d) = int (length (filter ?P ?ws))"
    by (simp only: score_with_score count_matches_eq filter_includes_str_occurs_ci)
  have le: "length (filter ?P ?ws) \<le> length ?ws"
    by (rule length_filter_le)
  have card: "distinct ?ws \<longrightarrow> length (filter ?P ?ws) = card {w \<in> set ?ws. ?P w}"
  proof
    assume "distinct ?ws"
    then have "distinct (filter ?P ?ws)" by simp
    then have "card (set (filter ?P ?ws)) = length (filter ?P ?ws)" by (rule distinct_card)
    then show "length (filter ?P ?ws) = card {w \<in> set ?ws. ?P w}" by simp
  qed
  from eq le card show ?thesis by simp
qed

theorem score_counts_entries_ana:
  "distinct (questionWords ''What does Ana do?'')
   \<and> score (with_score (questionWords ''What does Ana do?'') ana_doc) = 1
   \<and> card {w \<in> set (questionWords ''What does Ana do?''). occurs_ci w (content ana_doc)} = 1"
proof -
  have q: "questionWords ''What does Ana do?'' = [''ana'', ''do?'']"
    by code_simp
  have d: "distinct (questionWords ''What does Ana do?'')"
    unfolding q by simp
  have s: "score (with_score (questionWords ''What does Ana do?'') ana_doc) = 1"
    unfolding q by code_simp
  from score_counts_entries [of "''What does Ana do?''" ana_doc] d s
  have "card {w \<in> set (questionWords ''What does Ana do?''). occurs_ci w (content ana_doc)} = 1"
    by simp
  with d s show ?thesis by simp
qed

text \<open>
  The claim as it was stated fails where the question repeats a token: the term set of
  ``software software'' has one element, and the company document of \<open>acme\<close> scores 2.
\<close>

theorem score_exceeds_term_set:
  "score (with_score (questionWords ''software software'') (company_doc acme)) = 2
   \<and> card (set (questionWords ''software software'')) = 1
   \<and> \<not> score (with_score (questionWords ''software software'') (company_doc acme))
         \<le> int (card (set (questionWords ''software software'')))"
proof -
  have q: "questionWords ''software software'' = [''software'', ''software'']"
    by code_simp
  have s: "score (with_score [''software'', ''software''] (company_doc acme)) = 2"
    by code_simp
  show ?thesis unfolding q s by simp
qed

text \<open>
  C8: for two documents \<open>a\<close> and \<open>b\<close> and terms \<open>ws\<close>, if every term that occurs in
  the (lowercased) content of \<open>b\<close> also occurs in the (lowercased) content of \<open>a\<close>, then
  the score of \<open>a\<close> is at least the score of \<open>b\<close>.
\<close>

theorem score_monotone:
  assumes "\<forall>t\<in>set ws. (\<exists>p r. toLowerCase (content b) = p @ t @ r) \<longrightarrow>
                        (\<exists>p r. toLowerCase (content a) = p @ t @ r)"
  shows "score (with_score ws b) \<le> score (with_score ws a)"
proof -
  have "length (filter (includes_str (toLowerCase (content b))) ws)
          \<le> length (filter (includes_str (toLowerCase (content a))) ws)"
    using assms
  proof (induction ws)
    case Nil
    then show ?case by simp
  next
    case (Cons w ws)
    then show ?case by (auto simp: includes_str_iff)
  qed
  then show ?thesis by (simp add: score_with_score count_matches_eq)
qed

theorem score_monotone_employees:
  "score (with_score [''employee'', ''backend''] leo_doc) = 1
   \<and> score (with_score [''employee'', ''backend''] ana_doc) = 2
   \<and> score (with_score [''employee'', ''backend''] leo_doc)
       \<le> score (with_score [''employee'', ''backend''] ana_doc)"
proof -
  have a: "includes_str (toLowerCase (content ana_doc)) ''employee''"
          "includes_str (toLowerCase (content ana_doc)) ''backend''"
    by code_simp+
  have sup: "\<forall>t\<in>set [''employee'', ''backend''].
      (\<exists>p r. toLowerCase (content leo_doc) = p @ t @ r) \<longrightarrow>
      (\<exists>p r. toLowerCase (content ana_doc) = p @ t @ r)"
    using a by (simp add: includes_str_iff)
  have l: "score (with_score [''employee'', ''backend''] leo_doc) = 1"
    by code_simp
  have h: "score (with_score [''employee'', ''backend''] ana_doc) = 2"
    by code_simp
  from score_monotone [OF sup] l h show ?thesis by simp
qed

section \<open>Selection\<close>

lemma mset_insort_cmp: "mset (insort_cmp cmp x xs) = add_mset x (mset xs)"
  by (induction xs) simp_all

lemma set_insort_cmp: "set (insort_cmp cmp x xs) = insert x (set xs)"
  by (induction xs) auto

lemma mset_sort_cmp: "mset (sort_cmp cmp xs) = mset xs"
  unfolding sort_cmp_def by (induction xs) (simp_all add: mset_insort_cmp)

lemma set_sort_cmp: "set (sort_cmp cmp xs) = set xs"
  unfolding sort_cmp_def by (induction xs) (simp_all add: set_insort_cmp)

lemma sorted_insort_by_score:
  "sorted_wrt (\<lambda>a b. score b \<le> score a) xs \<Longrightarrow>
   sorted_wrt (\<lambda>a b. score b \<le> score a) (insort_cmp by_score x xs)"
proof (induction xs)
  case Nil
  then show ?case by simp
next
  case (Cons y ys)
  show ?case
  proof (cases "score y \<le> score x")
    case True
    with Cons.prems show ?thesis by auto
  next
    case False
    with Cons show ?thesis by (auto simp: set_insort_cmp)
  qed
qed

lemma sorted_sort_by_score:
  "sorted_wrt (\<lambda>a b. score b \<le> score a) (sort_cmp by_score xs)"
  unfolding sort_cmp_def by (induction xs) (simp_all add: sorted_insort_by_score)

lemma filter_insort_by_score_other:
  "score x \<noteq> s \<Longrightarrow>
   filter (\<lambda>d. score d = s) (insort_cmp by_score x xs) = filter (\<lambda>d. score d = s) xs"
  by (induction xs) simp_all

lemma filter_insort_by_score_same:
  "sorted_wrt (\<lambda>a b. score b \<le> score a) xs \<Longrightarrow>
   filter (\<lambda>d. score d = score x) (insort_cmp by_score x xs) =
     x # filter (\<lambda>d. score d = score x) xs"
proof (induction xs)
  case Nil
  then show ?case by simp
next
  case (Cons y ys)
  show ?case
  proof (cases "score y \<le> score x")
    case True
    then show ?thesis by simp
  next
    case False
    with Cons show ?thesis by simp
  qed
qed

lemma sort_by_score_stable:
  "filter (\<lambda>d. score d = s) (sort_cmp by_score xs) = filter (\<lambda>d. score d = s) xs"
proof (induction xs)
  case Nil
  then show ?case by (simp add: sort_cmp_def)
next
  case (Cons x xs)
  have step: "sort_cmp by_score (x # xs) = insort_cmp by_score x (sort_cmp by_score xs)"
    by (simp add: sort_cmp_def)
  show ?case
  proof (cases "score x = s")
    case True
    then show ?thesis
      using filter_insort_by_score_same [OF sorted_sort_by_score, of x xs] Cons.IH
      by (simp add: step)
  next
    case False
    then show ?thesis
      using filter_insort_by_score_other [of x s "sort_cmp by_score xs"] Cons.IH
      by (simp add: step)
  qed
qed

lemma sort_cmp_Nil_iff: "sort_cmp cmp xs = [] \<longleftrightarrow> xs = []"
  using mset_sort_cmp [of cmp xs] by (metis mset_zero_iff)

lemma findRelevantDocuments_Nil_iff:
  "findRelevantDocuments q docs = [] \<longleftrightarrow>
     (\<forall>d\<in>set docs. \<not> 0 < count_matches (questionWords q) d)"
  unfolding findRelevantDocuments_def ranked_def scoredDocs_def
  by (simp add: sort_cmp_Nil_iff filter_empty_conv score_with_score)

text \<open>
  C5: \<open>findRelevantDocuments\<close> returns the first 5 of \<open>ranked\<close>, and \<open>ranked\<close>
  holds exactly the scored documents with a score above 0, ordered by score
  descending, the documents of one score in the order they had in the input (the
  sort is stable).
\<close>

theorem findRelevantDocuments_ranked:
  "findRelevantDocuments q docs = take 5 (ranked q docs)
   \<and> mset (ranked q docs) = mset (filter (\<lambda>d. 0 < score d) (scoredDocs q docs))
   \<and> sorted_wrt (\<lambda>a b. score b \<le> score a) (ranked q docs)
   \<and> (\<forall>s. filter (\<lambda>d. score d = s) (ranked q docs) =
            filter (\<lambda>d. score d = s) (filter (\<lambda>d. 0 < score d) (scoredDocs q docs)))"
  unfolding findRelevantDocuments_def ranked_def
  by (simp only: mset_sort_cmp sorted_sort_by_score sort_by_score_stable simp_thms)

theorem findRelevantDocuments_ranked_acme:
  "map score (ranked ''acme backend employee company contact'' (createDocumentsFromData acme))
     = [2, 2, 2, 1, 1]
   \<and> map type (findRelevantDocuments ''acme backend employee company contact''
                 (createDocumentsFromData acme))
     = [''company_info'', ''employee'', ''contact'', ''employee'', ''mission'']
   \<and> sorted_wrt (\<lambda>a b. score b \<le> score a)
        (ranked ''acme backend employee company contact'' (createDocumentsFromData acme))"
proof -
  have s: "map score (ranked ''acme backend employee company contact'' (createDocumentsFromData acme))
     = [2, 2, 2, 1, 1]"
    by code_simp
  have t: "map type (take 5 (ranked ''acme backend employee company contact'' (createDocumentsFromData acme)))
     = [''company_info'', ''employee'', ''contact'', ''employee'', ''mission'']"
    by code_simp
  note c = findRelevantDocuments_ranked [of "''acme backend employee company contact''" "createDocumentsFromData acme"]
  show ?thesis
    using s t c [THEN conjunct1] c [THEN conjunct2, THEN conjunct2, THEN conjunct1]
    by simp
qed

section \<open>The context\<close>

lemma join_nonempty: "xs \<noteq> [] \<Longrightarrow> hd xs \<noteq> [] \<Longrightarrow> join sep xs \<noteq> []"
  by (induction sep xs rule: join.induct) simp_all

lemma render_doc_nonempty: "render_doc d \<noteq> []"
  by (simp add: render_doc_def nl_def)

lemma build_context_nonempty: "build_context data rel \<noteq> []"
proof (cases rel)
  case Nil
  then show ?thesis by (simp add: build_context_def)
next
  case (Cons d ds)
  then have "join (nl @ nl @ ''---'' @ nl @ nl) (map render_doc rel) \<noteq> []"
    by (intro join_nonempty) (simp_all add: render_doc_nonempty)
  with Cons show ?thesis by (simp add: build_context_def)
qed

text \<open>
  C1, as amended: \<open>findRelevantDocuments\<close> returns a sequence that is not empty
  exactly when some document of its input has a score above 0; when none has, it
  returns the empty sequence, and it is the context that \<open>runFAQAgent\<close> builds from
  the result that is never empty.
\<close>

theorem findRelevantDocuments_nonempty_iff:
  "(findRelevantDocuments q docs \<noteq> [] \<longleftrightarrow>
      (\<exists>d\<in>set docs. 0 < score (with_score (questionWords q) d)))
   \<and> build_context data (findRelevantDocuments q docs) \<noteq> []"
  by (simp add: findRelevantDocuments_Nil_iff build_context_nonempty score_with_score)

theorem findRelevantDocuments_nonempty_ana:
  "findRelevantDocuments ''What does Ana do?'' [ana_doc, leo_doc] \<noteq> []
   \<and> build_context acme (findRelevantDocuments ''What does Ana do?'' [ana_doc, leo_doc]) \<noteq> []"
proof -
  have "0 < score (with_score (questionWords ''What does Ana do?'') ana_doc)"
    by code_simp
  then have "\<exists>d\<in>set [ana_doc, leo_doc]. 0 < score (with_score (questionWords ''What does Ana do?'') d)"
    by simp
  with findRelevantDocuments_nonempty_iff [of "''What does Ana do?''" "[ana_doc, leo_doc]" acme] show ?thesis
    by blast
qed

text \<open>
  The claim as it was stated fails at the empty question: the knowledge base \<open>acme\<close>
  has documents, and \<open>findRelevantDocuments\<close> returns none of them.
\<close>

theorem findRelevantDocuments_empty_question:
  "createDocumentsFromData acme \<noteq> [] \<and>
   findRelevantDocuments [] (createDocumentsFromData acme) = []"
proof -
  have q: "questionWords [] = []" by code_simp
  have "\<forall>d\<in>set (createDocumentsFromData acme). \<not> 0 < count_matches (questionWords []) d"
    unfolding q by (simp add: count_matches_eq)
  then have "findRelevantDocuments [] (createDocumentsFromData acme) = []"
    by (simp only: findRelevantDocuments_Nil_iff)
  then show ?thesis by (simp add: createDocumentsFromData_eq)
qed

text \<open>
  C2: when the question has no terms, or no derived document has a score above 0, the
  call ends without an error and its context is the fallback, the company name and the
  mission statement, which is not empty. \<open>data\<close> is the knowledge base that the call
  uses: the cached one, or the one it loads.
\<close>

theorem fallback_context:
  assumes used: "faqDataCache st = Data data \<or>
                 (faqDataCache st = Falsy \<and> file = Inr (Data data))"
    and none: "questionWords q = [] \<or>
               (\<forall>d\<in>set (createDocumentsFromData data). score (with_score (questionWords q) d) = 0)"
  shows "\<exists>r st'. runFAQAgent file q st = (Inr r, st')
           \<and> context_str r = ''Company: '' @ companyName (en data) @ nl @ missionStatement (en data)
           \<and> context_str r \<noteq> []"
proof -
  have zero: "\<forall>d\<in>set (createDocumentsFromData data). \<not> 0 < count_matches (questionWords q) d"
    using none
  proof
    assume "questionWords q = []"
    then show ?thesis by (simp add: count_matches_eq)
  next
    assume "\<forall>d\<in>set (createDocumentsFromData data). score (with_score (questionWords q) d) = 0"
    then show ?thesis by (simp add: score_with_score)
  qed
  then have rel: "findRelevantDocuments q (createDocumentsFromData data) = []"
    by (simp only: findRelevantDocuments_Nil_iff)
  from used show ?thesis
  proof
    assume "faqDataCache st = Data data"
    then show ?thesis
      by (simp add: runFAQAgent_def Let_def rel build_context_def)
  next
    assume "faqDataCache st = Falsy \<and> file = Inr (Data data)"
    then show ?thesis
      by (simp add: runFAQAgent_def Let_def rel build_context_def)
  qed
qed

theorem fallback_context_acme:
  "\<exists>r st'. runFAQAgent (Inr (Data acme)) [] initial_state = (Inr r, st')
     \<and> context_str r = ''Company: Acme'' @ nl @ ''We build software''"
proof -
  have a: "faqDataCache initial_state = Data acme \<or>
           (faqDataCache initial_state = Falsy \<and>
            (Inr (Data acme) :: error + json) = Inr (Data acme))"
    by (simp add: initial_state_def)
  have b: "questionWords [] = [] \<or>
           (\<forall>d\<in>set (createDocumentsFromData acme). score (with_score (questionWords []) d) = 0)"
    by (rule disjI1) code_simp
  have c: "companyName (en acme) = ''Acme''" "missionStatement (en acme) = ''We build software''"
    by (simp_all add: acme_def)
  from fallback_context [OF a b] show ?thesis unfolding c by auto
qed

section \<open>The cache\<close>

lemma runFAQAgent_cached:
  "faqDataCache st = Data data \<Longrightarrow>
   \<exists>ret. runFAQAgent f q st = (Inr ret, st) \<and> documents ret = createDocumentsFromData data"
  by (simp add: runFAQAgent_def Let_def)

lemma runFAQAgent_malformed:
  "faqDataCache st = Malformed \<Longrightarrow> runFAQAgent f q st = (Inl TypeError, st)"
  by (simp add: runFAQAgent_def)

lemma runFAQAgent_unset:
  "loads (snd (runFAQAgent f q st)) = loads st + 1" if "faqDataCache st = Falsy"
proof (cases f)
  case (Inl e)
  then show ?thesis using that by (simp add: runFAQAgent_def)
next
  case (Inr v)
  then show ?thesis using that by (cases v) (simp_all add: runFAQAgent_def Let_def)
qed

lemma runFAQAgent_fails:
  assumes "faqDataCache st = Falsy" and "load_fails f"
  shows "\<exists>e. runFAQAgent f q st = (Inl e, st\<lparr>loads := loads st + 1\<rparr>)"
proof (cases f)
  case (Inl e)
  with assms show ?thesis by (simp add: runFAQAgent_def)
next
  case (Inr v)
  with assms(2) have "v = Falsy" by (cases v) simp_all
  with Inr assms(1) have "runFAQAgent f q st = (Inl TypeError, st\<lparr>loads := loads st + 1\<rparr>)"
    by (cases st) (simp add: runFAQAgent_def)
  then show ?thesis by blast
qed

lemma run_calls_cached:
  "faqDataCache st = Data data \<Longrightarrow>
   snd (run_calls calls st) = st
   \<and> length (fst (run_calls calls st)) = length calls
   \<and> (\<forall>r\<in>set (fst (run_calls calls st)).
         \<exists>ret. r = Inr ret \<and> documents ret = createDocumentsFromData data)"
proof (induction calls)
  case Nil
  then show ?case by simp
next
  case (Cons c calls)
  obtain f q where c: "c = (f, q)" by (cases c)
  from runFAQAgent_cached [OF Cons.prems, of f q]
  obtain ret where ret: "runFAQAgent f q st = (Inr ret, st)"
    "documents ret = createDocumentsFromData data" by blast
  with Cons.IH [OF Cons.prems] show ?case
    by (simp add: c split_beta)
qed

lemma run_calls_malformed:
  "faqDataCache st = Malformed \<Longrightarrow>
   snd (run_calls calls st) = st
   \<and> length (fst (run_calls calls st)) = length calls
   \<and> (\<forall>r\<in>set (fst (run_calls calls st)). r = Inl TypeError)"
proof (induction calls)
  case Nil
  then show ?case by simp
next
  case (Cons c calls)
  obtain f q where c: "c = (f, q)" by (cases c)
  from Cons.IH [OF Cons.prems] runFAQAgent_malformed [OF Cons.prems, of f q] show ?case
    by (simp add: c split_beta)
qed

lemma run_calls_failing:
  "faqDataCache st = Falsy \<Longrightarrow> \<forall>c\<in>set calls. load_fails (fst c) \<Longrightarrow>
   snd (run_calls calls st) = st\<lparr>loads := loads st + length calls\<rparr>
   \<and> length (fst (run_calls calls st)) = length calls
   \<and> (\<forall>r\<in>set (fst (run_calls calls st)). \<exists>e. r = Inl e)"
proof (induction calls arbitrary: st)
  case Nil
  then show ?case by simp
next
  case (Cons c calls)
  obtain f q where c: "c = (f, q)" by (cases c)
  let ?st = "st\<lparr>loads := loads st + 1\<rparr>"
  from Cons.prems(2) c have "load_fails f" by simp
  from runFAQAgent_fails [OF Cons.prems(1) this, of q]
  obtain e where e: "runFAQAgent f q st = (Inl e, ?st)" by blast
  have "faqDataCache ?st = Falsy" using Cons.prems(1) by simp
  moreover have "\<forall>c\<in>set calls. load_fails (fst c)" using Cons.prems(2) by simp
  ultimately have ih:
    "snd (run_calls calls ?st) = ?st\<lparr>loads := loads ?st + length calls\<rparr>
     \<and> length (fst (run_calls calls ?st)) = length calls
     \<and> (\<forall>r\<in>set (fst (run_calls calls ?st)). \<exists>e. r = Inl e)"
    by (rule Cons.IH)
  from ih e show ?case
    by (simp add: c split_beta)
qed

text \<open>
  C4, as amended. When the read and parse of the first call yields a well-formed
  knowledge base, the file is read exactly once, by the first call, however many calls
  follow and whatever the file is by then; every call returns, and derives the
  documents of the knowledge base that the first call loaded. A call that finds the
  cache unset reads the file; when the read or the parse throws, or the parse yields a
  falsy value, the call fails and leaves the cache unset, so the next call reads the
  file again: a process whose reads all fail so has read the file once per call. When
  the parse of the first call yields a truthy value on which the derivation throws,
  that value is cached: the file is read once, and every call fails.
\<close>

theorem loader_runs_once:
  "(loads (snd (runFAQAgent (Inr (Data data)) q initial_state)) = 1
    \<and> loads (snd (run_calls ((Inr (Data data), q) # calls) initial_state)) = 1
    \<and> length (fst (run_calls ((Inr (Data data), q) # calls) initial_state)) = Suc (length calls)
    \<and> (\<forall>r\<in>set (fst (run_calls ((Inr (Data data), q) # calls) initial_state)).
          \<exists>ret. r = Inr ret \<and> documents ret = createDocumentsFromData data))
   \<and> (faqDataCache st = Falsy \<longrightarrow>
         loads (snd (runFAQAgent f q st)) = loads st + 1)
   \<and> (faqDataCache st = Falsy \<and> load_fails f \<longrightarrow>
         faqDataCache (snd (runFAQAgent f q st)) = Falsy
         \<and> (\<exists>e. fst (runFAQAgent f q st) = Inl e))
   \<and> ((\<forall>c\<in>set failing. load_fails (fst c)) \<longrightarrow>
         loads (snd (run_calls failing initial_state)) = length failing
         \<and> faqDataCache (snd (run_calls failing initial_state)) = Falsy
         \<and> length (fst (run_calls failing initial_state)) = length failing
         \<and> (\<forall>r\<in>set (fst (run_calls failing initial_state)). \<exists>e. r = Inl e))
   \<and> (loads (snd (run_calls ((Inr Malformed, q) # calls) initial_state)) = 1
        \<and> length (fst (run_calls ((Inr Malformed, q) # calls) initial_state)) = Suc (length calls)
        \<and> (\<forall>r\<in>set (fst (run_calls ((Inr Malformed, q) # calls) initial_state)).
              r = Inl TypeError))"
proof -
  let ?good = "\<lparr> faqDataCache = Data data, loads = 1 \<rparr>"
  let ?bad = "\<lparr> faqDataCache = Malformed, loads = 1 \<rparr>"
  have first: "\<exists>ret. runFAQAgent (Inr (Data data)) q initial_state = (Inr ret, ?good)
                 \<and> documents ret = createDocumentsFromData data"
    by (simp add: runFAQAgent_def Let_def initial_state_def)
  then obtain ret where ret: "runFAQAgent (Inr (Data data)) q initial_state = (Inr ret, ?good)"
    "documents ret = createDocumentsFromData data" by blast
  have "faqDataCache ?good = Data data" by simp
  from run_calls_cached [OF this, of calls] ret
  have once: "loads (snd (runFAQAgent (Inr (Data data)) q initial_state)) = 1
    \<and> loads (snd (run_calls ((Inr (Data data), q) # calls) initial_state)) = 1
    \<and> length (fst (run_calls ((Inr (Data data), q) # calls) initial_state)) = Suc (length calls)
    \<and> (\<forall>r\<in>set (fst (run_calls ((Inr (Data data), q) # calls) initial_state)).
          \<exists>ret. r = Inr ret \<and> documents ret = createDocumentsFromData data)"
    by (simp add: split_beta)
  have unset: "faqDataCache st = Falsy \<longrightarrow>
      loads (snd (runFAQAgent f q st)) = loads st + 1"
    by (simp add: runFAQAgent_unset)
  have fails: "faqDataCache st = Falsy \<and> load_fails f \<longrightarrow>
      faqDataCache (snd (runFAQAgent f q st)) = Falsy
      \<and> (\<exists>e. fst (runFAQAgent f q st) = Inl e)"
  proof
    assume a: "faqDataCache st = Falsy \<and> load_fails f"
    then obtain e where "runFAQAgent f q st = (Inl e, st\<lparr>loads := loads st + 1\<rparr>)"
      using runFAQAgent_fails [of st f q] by blast
    with a show "faqDataCache (snd (runFAQAgent f q st)) = Falsy
      \<and> (\<exists>e. fst (runFAQAgent f q st) = Inl e)"
      by simp
  qed
  have again: "(\<forall>c\<in>set failing. load_fails (fst c)) \<longrightarrow>
      loads (snd (run_calls failing initial_state)) = length failing
      \<and> faqDataCache (snd (run_calls failing initial_state)) = Falsy
      \<and> length (fst (run_calls failing initial_state)) = length failing
      \<and> (\<forall>r\<in>set (fst (run_calls failing initial_state)). \<exists>e. r = Inl e)"
  proof
    assume a: "\<forall>c\<in>set failing. load_fails (fst c)"
    have "faqDataCache initial_state = Falsy" by (simp add: initial_state_def)
    from run_calls_failing [OF this a]
    show "loads (snd (run_calls failing initial_state)) = length failing
      \<and> faqDataCache (snd (run_calls failing initial_state)) = Falsy
      \<and> length (fst (run_calls failing initial_state)) = length failing
      \<and> (\<forall>r\<in>set (fst (run_calls failing initial_state)). \<exists>e. r = Inl e)"
      by (simp add: initial_state_def)
  qed
  have firstbad: "runFAQAgent (Inr Malformed) q initial_state = (Inl TypeError, ?bad)"
    by (simp add: runFAQAgent_def initial_state_def)
  have "faqDataCache ?bad = Malformed" by simp
  from run_calls_malformed [OF this, of calls] firstbad
  have bad: "loads (snd (run_calls ((Inr Malformed, q) # calls) initial_state)) = 1
        \<and> length (fst (run_calls ((Inr Malformed, q) # calls) initial_state)) = Suc (length calls)
        \<and> (\<forall>r\<in>set (fst (run_calls ((Inr Malformed, q) # calls) initial_state)).
              r = Inl TypeError)"
    by (simp add: split_beta)
  show ?thesis
    by (rule conjI [OF once conjI [OF unset conjI [OF fails conjI [OF again bad]]]])
qed

theorem loader_runs_once_acme:
  "loads (snd (run_calls [(Inr (Data acme), ''Who is Ana?''), (Inl DataUnavailable, ''Who is Leo?'')]
                 initial_state)) = 1
   \<and> length (fst (run_calls [(Inr (Data acme), ''Who is Ana?''), (Inl DataUnavailable, ''Who is Leo?'')]
                 initial_state)) = 2
   \<and> loads (snd (run_calls [(Inr Falsy, ''Who is Ana?''), (Inl DataUnavailable, ''Who is Leo?'')]
                 initial_state)) = 2
   \<and> faqDataCache (snd (run_calls [(Inr Falsy, ''Who is Ana?''), (Inl DataUnavailable, ''Who is Leo?'')]
                 initial_state)) = Falsy
   \<and> loads (snd (run_calls [(Inr Malformed, ''Who is Ana?''), (Inr (Data acme), ''Who is Leo?'')]
                 initial_state)) = 1
   \<and> list_all (\<lambda>r. r = Inl TypeError)
        (fst (run_calls [(Inr Malformed, ''Who is Ana?''), (Inr (Data acme), ''Who is Leo?'')]
                 initial_state))"
proof -
  note good = loader_runs_once
    [where data = acme and q = "''Who is Ana?''"
       and calls = "[(Inl DataUnavailable, ''Who is Leo?'')]", THEN conjunct1]
  have fl: "\<forall>c\<in>set [(Inr Falsy, ''Who is Ana?''), (Inl DataUnavailable, ''Who is Leo?'')].
              load_fails (fst c)"
    by simp
  note again = loader_runs_once
    [where failing = "[(Inr Falsy, ''Who is Ana?''), (Inl DataUnavailable, ''Who is Leo?'')]",
     THEN conjunct2, THEN conjunct2, THEN conjunct2, THEN conjunct1, THEN mp, OF fl]
  note bad = loader_runs_once
    [where q = "''Who is Ana?''" and calls = "[(Inr (Data acme), ''Who is Leo?'')]",
     THEN conjunct2, THEN conjunct2, THEN conjunct2, THEN conjunct2]
  have 1: "loads (snd (run_calls [(Inr (Data acme), ''Who is Ana?''), (Inl DataUnavailable, ''Who is Leo?'')]
                 initial_state)) = 1"
    using good by blast
  have 2: "length (fst (run_calls [(Inr (Data acme), ''Who is Ana?''), (Inl DataUnavailable, ''Who is Leo?'')]
                 initial_state)) = 2"
    using good by simp
  have 3: "loads (snd (run_calls [(Inr Falsy, ''Who is Ana?''), (Inl DataUnavailable, ''Who is Leo?'')]
                 initial_state)) = 2"
    using again by simp
  have 4: "faqDataCache (snd (run_calls [(Inr Falsy, ''Who is Ana?''), (Inl DataUnavailable, ''Who is Leo?'')]
                 initial_state)) = Falsy"
    using again by blast
  have 5: "loads (snd (run_calls [(Inr Malformed, ''Who is Ana?''), (Inr (Data acme), ''Who is Leo?'')]
                 initial_state)) = 1"
    using bad by blast
  have 6: "list_all (\<lambda>r. r = Inl TypeError)
        (fst (run_calls [(Inr Malformed, ''Who is Ana?''), (Inr (Data acme), ''Who is Leo?'')]
                 initial_state))"
    using bad unfolding list_all_iff by blast
  show ?thesis
    by (rule conjI [OF 1 conjI [OF 2 conjI [OF 3 conjI [OF 4 conjI [OF 5 6]]]]])
qed

text \<open>
  The claim as it was stated fails when the read fails, and when the file holds a
  falsy value: the cache stays unset, and the next call reads the file again.
\<close>

theorem loader_runs_again_after_failure:
  "loads (snd (run_calls [(Inl DataUnavailable, ''Who is Ana?''), (Inl DataUnavailable, ''Who is Ana?'')]
                 initial_state)) = 2
   \<and> loads (snd (run_calls [(Inr Falsy, ''Who is Ana?''), (Inr Falsy, ''Who is Ana?'')]
                 initial_state)) = 2"
  by (simp add: runFAQAgent_def initial_state_def)

section \<open>What the search leaves unchanged\<close>

lemma map_score_spec:
  "list_all (\<lambda>r. r < length (objs h)) rs \<Longrightarrow>
   map_score ws rs h =
     ([length (objs h) ..< length (objs h) + length rs],
      h\<lparr>objs := objs h @ map (\<lambda>r. Scored (with_score ws (doc_of (objs h ! r)))) rs\<rparr>)"
proof (induction rs arbitrary: h)
  case Nil
  then show ?case by simp
next
  case (Cons r rs)
  let ?ob = "Scored (with_score ws (doc_of (objs h ! r)))"
  let ?h = "h\<lparr>objs := objs h @ [?ob]\<rparr>"
  from Cons.prems have lt: "list_all (\<lambda>r. r < length (objs ?h)) rs"
    by (auto simp: list_all_iff)
  have same: "map (\<lambda>r. Scored (with_score ws (doc_of (objs ?h ! r)))) rs =
              map (\<lambda>r. Scored (with_score ws (doc_of (objs h ! r)))) rs"
    using Cons.prems by (auto simp: list_all_iff nth_append)
  have ih: "map_score ws rs ?h =
      ([Suc (length (objs h)) ..< Suc (length (objs h)) + length rs],
       h\<lparr>objs := objs h @ ?ob # map (\<lambda>r. Scored (with_score ws (doc_of (objs h ! r)))) rs\<rparr>)"
    using Cons.IH [OF lt] unfolding same by simp
  have e: "length (objs h) + length (r # rs) = Suc (length (objs h)) + length rs"
    by simp
  have up: "[length (objs h) ..< length (objs h) + length (r # rs)] =
      length (objs h) # [Suc (length (objs h)) ..< Suc (length (objs h)) + length rs]"
    unfolding e by (rule upt_conv_Cons) simp
  have "map_score ws (r # rs) h =
      (length (objs h) # [Suc (length (objs h)) ..< Suc (length (objs h)) + length rs],
       h\<lparr>objs := objs h @ ?ob # map (\<lambda>r. Scored (with_score ws (doc_of (objs h ! r)))) rs\<rparr>)"
    by (simp only: map_score.simps alloc_obj_def Let_def split ih)
  then show ?case unfolding up by simp
qed

lemma map_insort_cmp:
  "map f (insort_cmp (\<lambda>a b. cmp (f a) (f b)) x xs) = insort_cmp cmp (f x) (map f xs)"
  by (induction xs) simp_all

lemma map_sort_cmp:
  "map f (sort_cmp (\<lambda>a b. cmp (f a) (f b)) xs) = sort_cmp cmp (map f xs)"
  unfolding sort_cmp_def by (induction xs) (simp_all add: map_insort_cmp)

lemma map_filter_comp: "map f (filter (\<lambda>x. P (f x)) xs) = filter P (map f xs)"
  by (induction xs) simp_all


lemma deref_elems:
  "map (\<lambda>r. (xs @ ys) ! r) [length xs ..< length xs + length ys] = ys"
  by (rule nth_equalityI) (simp_all add: nth_append)


lemma findRelevantDocuments_heap_eq:
  fixes q :: string and h :: heap
  assumes "documents_ref < length (arrs h)"
    and "list_all (\<lambda>r. r < length (objs h)) (arrs h ! documents_ref)"
  defines "rs \<equiv> arrs h ! documents_ref"
  defines "store \<equiv> objs h @ map (\<lambda>r. Scored (with_score (questionWords q) (doc_of (objs h ! r)))) rs"
  defines "elems \<equiv> [length (objs h) ..< length (objs h) + length rs]"
  defines "sorted_refs \<equiv>
     sort_cmp (\<lambda>a b. score_of (store ! b) - score_of (store ! a))
       (filter (\<lambda>r. 0 < score_of (store ! r)) elems)"
  shows "findRelevantDocuments_heap q documents_ref h =
     Some (length (arrs h) + 2,
           \<lparr> objs = store, arrs = arrs h @ [elems, sorted_refs, take 5 sorted_refs] \<rparr>)"
proof -
  have ms: "map_score (questionWords q) rs h = (elems, h\<lparr>objs := store\<rparr>)"
    using assms(2) unfolding rs_def store_def elems_def by (rule map_score_spec)
  show ?thesis
    unfolding findRelevantDocuments_heap_def
    using assms(1,2) ms
    by (simp add: rs_def [symmetric] alloc_arr_def Let_def nth_append sorted_refs_def)
qed

lemma deref_result:
  fixes ws :: "string list" and docs :: "doc list" and pre :: "obj list"
  defines "store \<equiv> pre @ map Scored (map (with_score ws) docs)"
  defines "elems \<equiv> [length pre ..< length pre + length docs]"
  shows "map (\<lambda>r. store ! r)
           (take 5 (sort_cmp (\<lambda>a b. score_of (store ! b) - score_of (store ! a))
                      (filter (\<lambda>r. 0 < score_of (store ! r)) elems))) =
         map Scored
           (take 5 (sort_cmp by_score
                      (filter (\<lambda>d. 0 < score d) (map (with_score ws) docs))))"
proof -
  let ?cmp = "\<lambda>a b. score_of b - score_of a"
  let ?sds = "map (with_score ws) docs"
  have el: "map (\<lambda>r. store ! r) elems = map Scored ?sds"
    unfolding store_def elems_def
    using deref_elems [of pre "map Scored ?sds"] by simp
  let ?f = "\<lambda>r. store ! r"
  let ?matching = "filter (\<lambda>r. 0 < score_of (?f r)) elems"
  let ?sorted = "sort_cmp (\<lambda>a b. ?cmp (?f a) (?f b)) ?matching"
  let ?pos = "filter (\<lambda>d. 0 < score d) ?sds"
  have 1: "map ?f (take 5 ?sorted) = take 5 (map ?f ?sorted)"
    by (rule take_map [symmetric])
  have 2: "map ?f ?sorted = sort_cmp ?cmp (map ?f ?matching)"
    by (rule map_sort_cmp)
  have 3: "map ?f ?matching = filter (\<lambda>ob. 0 < score_of ob) (map ?f elems)"
    by (rule map_filter_comp)
  have 4: "filter (\<lambda>ob. 0 < score_of ob) (map Scored ?sds) = map Scored ?pos"
    using map_filter_comp [of Scored "\<lambda>ob. 0 < score_of ob" ?sds] by simp
  have 5: "sort_cmp ?cmp (map Scored ?pos) = map Scored (sort_cmp by_score ?pos)"
    using map_sort_cmp [of Scored ?cmp ?pos] by simp
  have "map ?f (take 5 ?sorted) = take 5 (map Scored (sort_cmp by_score ?pos))"
    by (simp only: 1 2 3 el 4 5)
  then show ?thesis by (simp only: take_map)
qed

lemma findRelevantDocuments_fields:
  "\<forall>sd\<in>set (findRelevantDocuments q docs).
     \<exists>d\<in>set docs. content sd = content d \<and> type sd = type d \<and> name sd = name d \<and>
        category sd = category d \<and> score sd = count_matches (questionWords q) d"
proof
  fix sd
  assume "sd \<in> set (findRelevantDocuments q docs)"
  then have "sd \<in> set (ranked q docs)"
    unfolding findRelevantDocuments_def by (rule in_set_takeD)
  then have "sd \<in> set (scoredDocs q docs)"
    unfolding ranked_def by (simp add: set_sort_cmp)
  then obtain d where "d \<in> set docs" "sd = with_score (questionWords q) d"
    unfolding scoredDocs_def by auto
  then show "\<exists>d\<in>set docs. content sd = content d \<and> type sd = type d \<and> name sd = name d \<and>
        category sd = category d \<and> score sd = count_matches (questionWords q) d"
    by (auto simp: with_score_def)
qed

text \<open>
  C10: \<open>findRelevantDocuments\<close> returns (it has a result on every store in which the
  input array and its elements exist); every object and every array that was in the
  store before the call is in it unchanged after the call, the input array and the
  input documents among them; the result is a new array of new objects; and each of
  these objects has the content, type, name and category of a document of the input
  and, as its score, the count of the question's terms in that document.
\<close>

theorem findRelevantDocuments_frame:
  assumes "documents_ref < length (arrs h)"
    and "list_all (\<lambda>r. r < length (objs h)) (arrs h ! documents_ref)"
  shows "\<exists>result_ref h'.
      findRelevantDocuments_heap q documents_ref h = Some (result_ref, h')
    \<and> take (length (objs h)) (objs h') = objs h
    \<and> take (length (arrs h)) (arrs h') = arrs h
    \<and> length (arrs h) \<le> result_ref \<and> result_ref < length (arrs h')
    \<and> list_all (\<lambda>r. length (objs h) \<le> r \<and> r < length (objs h')) (arrs h' ! result_ref)
    \<and> map (\<lambda>r. objs h' ! r) (arrs h' ! result_ref) =
        map Scored (findRelevantDocuments q (map (\<lambda>r. doc_of (objs h ! r)) (arrs h ! documents_ref)))
    \<and> (\<forall>sd\<in>set (findRelevantDocuments q
                      (map (\<lambda>r. doc_of (objs h ! r)) (arrs h ! documents_ref))).
         \<exists>d\<in>set (map (\<lambda>r. doc_of (objs h ! r)) (arrs h ! documents_ref)).
           content sd = content d \<and> type sd = type d \<and> name sd = name d \<and>
           category sd = category d \<and> score sd = count_matches (questionWords q) d)"
proof -
  let ?rs = "arrs h ! documents_ref"
  let ?docs = "map (\<lambda>r. doc_of (objs h ! r)) ?rs"
  let ?store = "objs h @ map Scored (map (with_score (questionWords q)) ?docs)"
  let ?elems = "[length (objs h) ..< length (objs h) + length ?docs]"
  let ?sorted = "sort_cmp (\<lambda>a b. score_of (?store ! b) - score_of (?store ! a))
       (filter (\<lambda>r. 0 < score_of (?store ! r)) ?elems)"
  let ?h' = "\<lparr> objs = ?store, arrs = arrs h @ [?elems, ?sorted, take 5 ?sorted] \<rparr>"
  have run: "findRelevantDocuments_heap q documents_ref h = Some (length (arrs h) + 2, ?h')"
    using findRelevantDocuments_heap_eq [OF assms, of q] by (simp add: comp_def)
  have res: "arrs ?h' ! (length (arrs h) + 2) = take 5 ?sorted"
    by (simp add: nth_append)
  have deref: "map (\<lambda>r. objs ?h' ! r) (take 5 ?sorted) =
      map Scored (findRelevantDocuments q ?docs)"
    using deref_result [of "objs h" "questionWords q" ?docs]
    by (simp add: findRelevantDocuments_def ranked_def scoredDocs_def)
  have "set (take 5 ?sorted) \<subseteq> set ?elems"
    using set_take_subset [of 5 ?sorted] by (auto simp: set_sort_cmp)
  then have fresh: "list_all (\<lambda>r. length (objs h) \<le> r \<and> r < length (objs ?h')) (take 5 ?sorted)"
    by (auto simp: list_all_iff)
  show ?thesis
    apply (rule exI [of _ "length (arrs h) + 2"])
    apply (rule exI [of _ ?h'])
    apply (intro conjI)
           apply (rule run)
          apply simp
         apply simp
        apply simp
       apply simp
      apply (simp only: res fresh)
     apply (simp only: res deref)
    apply (rule findRelevantDocuments_fields)
    done
qed

theorem findRelevantDocuments_frame_employees:
  "\<exists>result_ref h'.
      findRelevantDocuments_heap ''frontend ana leo designer'' 0 heap0 = Some (result_ref, h')
    \<and> take 2 (objs h') = [Plain ana_doc, Plain leo_doc]
    \<and> take 1 (arrs h') = [[0, 1]]
    \<and> map (\<lambda>ob. (name (doc_of ob), score_of ob)) (map (\<lambda>r. objs h' ! r) (arrs h' ! result_ref)) =
        [(Some ''Leo'', 3), (Some ''Ana'', 1)]"
proof -
  have wf: "0 < length (arrs heap0)" "list_all (\<lambda>r. r < length (objs heap0)) (arrs heap0 ! 0)"
    by (simp_all add: heap0_def)
  have docs: "map (\<lambda>r. doc_of (objs heap0 ! r)) (arrs heap0 ! 0) = [ana_doc, leo_doc]"
    by (simp add: heap0_def)
  have res: "map (\<lambda>sd. (name sd, score sd))
               (findRelevantDocuments ''frontend ana leo designer'' [ana_doc, leo_doc]) =
             [(Some ''Leo'', 3), (Some ''Ana'', 1)]"
    by code_simp
  from findRelevantDocuments_frame [OF wf, of "''frontend ana leo designer''"]
  obtain result_ref h' where
    run: "findRelevantDocuments_heap ''frontend ana leo designer'' 0 heap0 = Some (result_ref, h')"
    and o: "take (length (objs heap0)) (objs h') = objs heap0"
    and a: "take (length (arrs heap0)) (arrs h') = arrs heap0"
    and d: "map (\<lambda>r. objs h' ! r) (arrs h' ! result_ref) =
        map Scored (findRelevantDocuments ''frontend ana leo designer''
                      (map (\<lambda>r. doc_of (objs heap0 ! r)) (arrs heap0 ! 0)))"
    by blast
  have "map (\<lambda>ob. (name (doc_of ob), score_of ob)) (map (\<lambda>r. objs h' ! r) (arrs h' ! result_ref)) =
        map (\<lambda>sd. (name sd, score sd))
          (findRelevantDocuments ''frontend ana leo designer'' [ana_doc, leo_doc])"
    unfolding d docs by (simp add: comp_def)
  with res have r: "map (\<lambda>ob. (name (doc_of ob), score_of ob)) (map (\<lambda>r. objs h' ! r) (arrs h' ! result_ref)) =
        [(Some ''Leo'', 3), (Some ''Ana'', 1)]"
    by simp
  from o a have t: "take 2 (objs h') = [Plain ana_doc, Plain leo_doc]" "take 1 (arrs h') = [[0, 1]]"
    by (simp_all add: heap0_def numeral_2_eq_2)
  show ?thesis
    by (rule exI [of _ result_ref], rule exI [of _ h']) (simp only: run t r simp_thms)
qed

end
